theory Spec2Isabelle
  imports Main "HOL-Library.Word"
begin

section \<open>The byte-segmented Merkle tree of merkletree.go\<close>

text \<open>
  A Go byte slice is a list of characters (a \<open>char\<close> is one byte), a \<open>uint32\<close> is a
  32-bit word whose arithmetic wraps around, and \<open>len\<close> of a slice is an unbounded
  natural number that the conversion \<open>uint32(len(data))\<close> truncates.
\<close>

type_synonym bytes = string
type_synonym uint32 = "32 word"

text \<open>
  A call either returns a value or panics. A computation that may run forever has an
  outer \<open>option\<close>, where \<open>None\<close> means that the call never returns.
\<close>

datatype panic = NilPointerDereference | SliceBoundsOutOfRange

datatype 'a result = Returns 'a | Panics panic

text \<open>Go's \<open>error\<close> interface; \<open>None\<close> of type \<open>error option\<close> is the nil error.\<close>

datatype error = Error string

subsection \<open>The hashing context\<close>

text \<open>
  The package \<open>crypto/sha256\<close> is not part of the repository. A \<open>hash.Hash\<close> is
  modelled by what the code uses of it: the bytes written so far and the algorithm that
  turns them into a digest. \<open>Write\<close> appends, \<open>Sum\<close> appends the digest of everything
  written to its argument and leaves the context unchanged.
\<close>

datatype hasher = Hasher (algo: "bytes \<Rightarrow> bytes") (written: bytes)

text \<open>
  The hash factory of the algorithm \<open>H\<close>, as \<open>sha256.New\<close> is the factory of SHA-256:
  every call returns a context into which nothing has been written.
\<close>

definition hashNew :: "(bytes \<Rightarrow> bytes) \<Rightarrow> unit \<Rightarrow> hasher" where
  "hashNew H u = Hasher H []"

definition Write_hash :: "hasher \<Rightarrow> bytes \<Rightarrow> hasher" where
  "Write_hash hs p = Hasher (algo hs) (written hs @ p)"

definition Sum_hash :: "hasher \<Rightarrow> bytes \<Rightarrow> bytes" where
  "Sum_hash hs b = b @ algo hs (written hs)"

subsection \<open>Nodes and trees\<close>

text \<open>
  A value of type \<open>*node\<close> is the nil pointer or points to a struct with two such
  pointers and a hashing context. No node is shared or changed after it is built.
\<close>

datatype node = nil | Node (left: node) (right: node) (hash: hasher)

text \<open>The field access \<open>n.hash\<close> through a pointer that may be nil.\<close>

fun hash_of :: "node \<Rightarrow> hasher result" where
  "hash_of nil = Panics NilPointerDereference"
| "hash_of (Node l r h) = Returns h"

definition min_u32 :: "uint32 \<Rightarrow> uint32 \<Rightarrow> uint32" where
  "min_u32 a b = (if a < b then a else b)"

subsection \<open>chopData\<close>

text \<open>
  The loop of \<open>chopData\<close>, with the counter \<open>i\<close> and the slice \<open>segments\<close> as
  arguments. The slice expression \<open>data[i:i+currSegmentSize]\<close> panics when its bounds
  are out of order or beyond the buffer; the upper bound is compared with the length of
  the buffer here, which its capacity is at least, and the comparison never fails
  (lemma \<open>chopData_no_panic\<close>). The sum \<open>i + currSegmentSize\<close> and the step
  \<open>i += segmentSize\<close> are computed in 32 bits.
\<close>

partial_function (option) chopLoop ::
  "bytes \<Rightarrow> uint32 \<Rightarrow> uint32 \<Rightarrow> uint32 \<Rightarrow> bytes list \<Rightarrow> bytes list result option" where
  "chopLoop data segmentSize dataLen i segments =
     (if i < dataLen then
        (let currSegmentSize = min_u32 (dataLen - i) segmentSize in
         if unat i \<le> unat (i + currSegmentSize) \<and> unat (i + currSegmentSize) \<le> length data
         then
           (let segment = take (unat currSegmentSize) (drop (unat i) data) in
            chopLoop data segmentSize dataLen (i + segmentSize) (segments @ [segment]))
         else Some (Panics SliceBoundsOutOfRange))
      else Some (Returns segments))"

definition chopData :: "bytes \<Rightarrow> uint32 \<Rightarrow> bytes list result option" where
  "chopData data segmentSize = chopLoop data segmentSize (of_nat (length data)) 0 []"

subsection \<open>The tree\<close>

record MerkleTree =
  root :: node
  data :: bytes
  segmentSize :: uint32
  newHash :: "unit \<Rightarrow> hasher"

text \<open>
  \<open>buildTree\<close> receives the slice \<open>segments\<close> by value: the assignment
  \<open>segments = segments[1:]\<close> in the leaf branch changes the local variable only, and both
  recursive calls of the intermediate branch receive the slice of their caller.
\<close>

partial_function (option) buildTree ::
  "MerkleTree \<Rightarrow> bytes list \<Rightarrow> uint32 \<Rightarrow> uint32 \<Rightarrow> node result option" where
  "buildTree mt segments start end' =
     (case segments of
        [] \<Rightarrow> Some (Returns nil)
      | seg0 # rest \<Rightarrow>
          if end' - start \<le> segmentSize mt then
            Some (Returns (Node nil nil (Write_hash (newHash mt ()) seg0)))
          else
            (let mid = start + ((end' - start) div 2) in
             Option.bind (buildTree mt segments start mid) (\<lambda>l.
             case l of Panics p \<Rightarrow> Some (Panics p) | Returns lft \<Rightarrow>
             Option.bind (buildTree mt segments mid end') (\<lambda>r.
             case r of Panics p \<Rightarrow> Some (Panics p) | Returns rgt \<Rightarrow>
             Some (case hash_of lft of Panics p \<Rightarrow> Panics p | Returns lh \<Rightarrow>
                   (case hash_of rgt of Panics p \<Rightarrow> Panics p | Returns rh \<Rightarrow>
                    Returns (Node lft rgt
                      (Write_hash (newHash mt ()) (Sum_hash lh [] @ Sum_hash rh [])))))))))"

definition NewMerkleTreeWithCostumHash ::
  "bytes \<Rightarrow> uint32 \<Rightarrow> (unit \<Rightarrow> hasher) \<Rightarrow> (MerkleTree \<times> error option) result option" where
  "NewMerkleTreeWithCostumHash data' segmentSize' hashfn =
     (let mt = \<lparr>root = nil, data = data', segmentSize = segmentSize', newHash = hashfn\<rparr> in
      case chopData data' segmentSize' of
        None \<Rightarrow> None
      | Some (Panics p) \<Rightarrow> Some (Panics p)
      | Some (Returns segments) \<Rightarrow>
          (case buildTree mt segments 0 (of_nat (length data')) of
             None \<Rightarrow> None
           | Some (Panics p) \<Rightarrow> Some (Panics p)
           | Some (Returns r) \<Rightarrow> Some (Returns (mt\<lparr>root := r\<rparr>, None))))"

text \<open>
  \<open>NewMerkleTree\<close> passes \<open>sha256.New\<close>, which is outside the repository and is taken as
  a parameter here.
\<close>

definition NewMerkleTree ::
  "(unit \<Rightarrow> hasher) \<Rightarrow> bytes \<Rightarrow> uint32 \<Rightarrow> (MerkleTree \<times> error option) result option" where
  "NewMerkleTree sha256_New data' segmentSize' =
     NewMerkleTreeWithCostumHash data' segmentSize' sha256_New"

definition GetRootHash :: "MerkleTree \<Rightarrow> bytes result" where
  "GetRootHash mt =
     (case hash_of (root mt) of Panics p \<Rightarrow> Panics p | Returns h \<Rightarrow> Returns (Sum_hash h []))"

text \<open>
  \<open>subTreeEquals\<close> may be called on a nil receiver. Its digest test compares the digest
  of \<open>n\<close> with the digest of \<open>n\<close>.
\<close>

fun subTreeEquals :: "node \<Rightarrow> node \<Rightarrow> bool" where
  "subTreeEquals nil nil = True"
| "subTreeEquals nil (Node ol or' oh) = False"
| "subTreeEquals (Node nl nr nh) nil = False"
| "subTreeEquals (Node nl nr nh) (Node ol or' oh) =
     (if Sum_hash nh [] \<noteq> Sum_hash nh [] then False
      else subTreeEquals nl ol \<and> subTreeEquals nr or')"

definition Equals :: "MerkleTree \<Rightarrow> MerkleTree \<Rightarrow> bool" where
  "Equals mt other = subTreeEquals (root mt) (root other)"

definition Validate :: "MerkleTree \<Rightarrow> (bool \<times> error option) result option" where
  "Validate mt =
     (case NewMerkleTreeWithCostumHash (data mt) (segmentSize mt) (newHash mt) of
        None \<Rightarrow> None
      | Some (Panics p) \<Rightarrow> Some (Panics p)
      | Some (Returns (nmt, err)) \<Rightarrow>
          if err \<noteq> None then Some (Returns (False, None))
          else Some (Returns (Equals mt nmt, None)))"

subsection \<open>Notions the properties are stated with\<close>

fun leaves :: "node \<Rightarrow> nat" where
  "leaves nil = 0"
| "leaves (Node nil nil h) = 1"
| "leaves (Node l r h) = leaves l + leaves r"

fun internals :: "node \<Rightarrow> nat" where
  "internals nil = 0"
| "internals (Node nil nil h) = 0"
| "internals (Node l r h) = 1 + internals l + internals r"

text \<open>Every node has no child or two children.\<close>

fun full :: "node \<Rightarrow> bool" where
  "full nil = True"
| "full (Node nil nil h) = True"
| "full (Node nil (Node rl rr rh) h) = False"
| "full (Node (Node ll lr lh) nil h) = False"
| "full (Node l r h) = (full l \<and> full r)"

text \<open>The bytes written into the hashing context of each leaf, from left to right.\<close>

fun leaf_inputs :: "node \<Rightarrow> bytes list" where
  "leaf_inputs nil = []"
| "leaf_inputs (Node nil nil h) = [written h]"
| "leaf_inputs (Node l r h) = leaf_inputs l @ leaf_inputs r"

definition is_leaf :: "node \<Rightarrow> bool" where
  "is_leaf n = (case n of nil \<Rightarrow> False | Node l r h \<Rightarrow> l = nil \<and> r = nil)"

text \<open>The shape of a tree, without its hashing contexts.\<close>

datatype shape = Tip | Fork shape shape

fun shape_of :: "node \<Rightarrow> shape" where
  "shape_of nil = Tip"
| "shape_of (Node l r h) = Fork (shape_of l) (shape_of r)"

text \<open>
  The equality of section 4.5 of the specification, in its words: at each pair of
  positions both nodes are absent, or both are present with matching digest bytes and
  recursively matching subtrees.
\<close>

fun lockstep_equal :: "node \<Rightarrow> node \<Rightarrow> bool" where
  "lockstep_equal nil nil = True"
| "lockstep_equal nil (Node ol or' oh) = False"
| "lockstep_equal (Node nl nr nh) nil = False"
| "lockstep_equal (Node nl nr nh) (Node ol or' oh) =
     (Sum_hash nh [] = Sum_hash oh [] \<and> lockstep_equal nl ol \<and> lockstep_equal nr or')"

text \<open>
  The number of byte ranges that halving a range of \<open>n\<close> bytes produces, when a range of
  at most \<open>s\<close> bytes is not split.
\<close>

function halvings :: "nat \<Rightarrow> nat \<Rightarrow> nat" where
  "halvings s n = (if n \<le> s \<or> n < 2 then 1 else halvings s (n div 2) + halvings s (n - n div 2))"
  by pat_completeness auto
termination
  by (relation "measure (\<lambda>(s, n). n)") auto

text \<open>The windows of \<open>s\<close> elements of a list, the last one shorter when the list runs out.\<close>

function windows :: "nat \<Rightarrow> 'a list \<Rightarrow> 'a list list" where
  "windows s xs = (if xs = [] \<or> s = 0 then [] else take s xs # windows s (drop s xs))"
  by pat_completeness auto
termination
  by (relation "measure (\<lambda>(s, xs). length xs)") auto

text \<open>
  A caller that builds a tree and asks for its root digest:
  \<open>mt, _ := NewMerkleTreeWithCostumHash(data, segmentSize, hashfn); mt.GetRootHash()\<close>.
\<close>

definition rootDigest :: "bytes \<Rightarrow> uint32 \<Rightarrow> (unit \<Rightarrow> hasher) \<Rightarrow> bytes result option" where
  "rootDigest data' segmentSize' hashfn =
     (case NewMerkleTreeWithCostumHash data' segmentSize' hashfn of
        None \<Rightarrow> None
      | Some (Panics p) \<Rightarrow> Some (Panics p)
      | Some (Returns (mt, err)) \<Rightarrow> Some (GetRootHash mt))"

text \<open>
  The tree that \<open>buildTree\<close> returns for a range of \<open>n\<close> bytes when the first segment
  is \<open>seg\<close>, as a total function of the length of the range; used in the proofs only.
\<close>

function rangeTree :: "(unit \<Rightarrow> hasher) \<Rightarrow> bytes \<Rightarrow> nat \<Rightarrow> nat \<Rightarrow> node" where
  "rangeTree hf seg s n =
     (if n \<le> s \<or> n < 2 then Node nil nil (Write_hash (hf ()) seg)
      else Node (rangeTree hf seg s (n div 2)) (rangeTree hf seg s (n - n div 2))
             (Write_hash (hf ())
                (Sum_hash (hash (rangeTree hf seg s (n div 2))) [] @
                 Sum_hash (hash (rangeTree hf seg s (n - n div 2))) [])))"
  by pat_completeness auto
termination
  by (relation "measure (\<lambda>(hf, seg, s, n). n)") auto

declare windows.simps [simp del] halvings.simps [simp del] rangeTree.simps [simp del]

section \<open>The empty buffer\<close>

lemma chopData_empty: "chopData [] s = Some (Returns [])"
  by (simp add: chopData_def chopLoop.simps)

lemma New_empty:
  "NewMerkleTreeWithCostumHash [] s hf =
     Some (Returns (\<lparr>root = nil, data = [], segmentSize = s, newHash = hf\<rparr>, None))"
  by (simp add: NewMerkleTreeWithCostumHash_def chopData_empty buildTree.simps)

section \<open>Segmentation\<close>

lemma windows_Nil [simp]: "windows s [] = []"
  by (simp add: windows.simps)

lemma concat_windows: "0 < s \<Longrightarrow> concat (windows s xs) = xs"
proof (induction s xs rule: windows.induct)
  case (1 s xs)
  show ?case
  proof (cases "xs = []")
    case True
    then show ?thesis by simp
  next
    case False
    with 1 show ?thesis by (subst windows.simps) simp
  qed
qed

lemma length_windows: "0 < s \<Longrightarrow> length (windows s xs) = (length xs + s - 1) div s"
proof (induction s xs rule: windows.induct)
  case (1 s xs)
  show ?case
  proof (cases "xs = []")
    case True
    with 1(2) show ?thesis by simp
  next
    case False
    have ih: "length (windows s (drop s xs)) = (length (drop s xs) + s - 1) div s"
      using 1 False by simp
    show ?thesis
    proof (cases "length xs \<le> s")
      case True
      from False obtain m where m: "length xs = Suc m"
        by (cases xs) auto
      with True have "m < s" by simp
      then have "(m + s) div s = 1" by (intro div_nat_eqI) simp_all
      then have "(length xs + s - 1) div s = 1" by (simp add: m)
      with True False ih 1(2) show ?thesis
        by (subst windows.simps) simp
    next
      case gt: False
      then have "length xs + s - 1 = (length xs - s + s - 1) + s" by simp
      then have "(length xs + s - 1) div s = Suc ((length xs - s + s - 1) div s)"
        using 1(2) by (metis Suc_eq_plus1 div_add_self2 less_numeral_extra(3))
      with False ih 1(2) show ?thesis
        by (subst windows.simps) simp
    qed
  qed
qed

lemma nth_windows:
  "0 < s \<Longrightarrow> j < length (windows s xs) \<Longrightarrow> windows s xs ! j = take s (drop (j * s) xs)"
proof (induction s xs arbitrary: j rule: windows.induct)
  case (1 s xs)
  from 1(3) have ne: "xs \<noteq> []" by auto
  have unf: "windows s xs = take s xs # windows s (drop s xs)"
    using ne 1(2) by (subst windows.simps) simp
  show ?case
  proof (cases j)
    case 0
    then show ?thesis by (simp add: unf)
  next
    case (Suc k)
    with 1(3) unf have "k < length (windows s (drop s xs))" by simp
    with 1(1)[of k] ne 1(2) have "windows s (drop s xs) ! k = take s (drop (k * s) (drop s xs))"
      by simp
    with Suc show ?thesis by (simp add: unf add.commute)
  qed
qed

lemma ceil_mult_ge:
  fixes n s :: nat
  assumes "0 < s"
  shows "n \<le> (n + s - 1) div s * s"
proof -
  have "n + s - 1 = (n + s - 1) div s * s + (n + s - 1) mod s" by simp
  moreover have "(n + s - 1) mod s < s" using assms by simp
  ultimately show ?thesis by linarith
qed

lemma ceil_mult_step:
  fixes n s j :: nat
  assumes "0 < s" and "j * s < n"
  shows "j * s + s \<le> (n + s - 1) div s * s"
proof -
  from assms have "Suc j * s \<le> n + s - 1" by simp
  then have "Suc j * s div s \<le> (n + s - 1) div s" by (rule div_le_mono)
  with assms(1) have "Suc j \<le> (n + s - 1) div s" by simp
  then have "Suc j * s \<le> (n + s - 1) div s * s" by (rule mult_le_mono1)
  then show ?thesis by simp
qed

lemma ceil_mult_less:
  fixes n s :: nat
  assumes "0 < s"
  shows "(n + s - 1) div s * s < n + s"
proof -
  have "(n + s - 1) div s * s \<le> n + s - 1" by simp
  with assms show ?thesis by linarith
qed

text \<open>
  The counter of the loop does not wrap around when the first multiple of the segment
  size that is not below the length is below \<open>2^32\<close>.
\<close>

lemma chopLoop_windows:
  assumes s: "S \<noteq> 0"
    and nowrap: "(unat dataLen + unat S - 1) div unat S * unat S < 2 ^ 32"
    and len: "unat dataLen \<le> length buf"
  shows "unat S dvd unat i \<Longrightarrow>
         chopLoop buf S dataLen i segments =
           Some (Returns (segments @
             windows (unat S) (drop (unat i) (take (unat dataLen) buf))))"
proof (induction "unat dataLen - unat i" arbitrary: i segments rule: less_induct)
  case less
  show ?case
  proof (cases "i < dataLen")
    case False
    then have "unat dataLen \<le> unat i" by (simp add: word_less_nat_alt)
    then show ?thesis using False
      by (subst chopLoop.simps) simp
  next
    case True
    then have ilt: "unat i < unat dataLen" by (simp add: word_less_nat_alt)
    from s have spos: "0 < unat S" by (simp add: unat_gt_0)
    define cur where "cur = min_u32 (dataLen - i) S"
    have usub: "unat (dataLen - i) = unat dataLen - unat i"
      using True by (simp add: unat_sub order.strict_implies_order)
    have ucur: "unat cur = min (unat dataLen - unat i) (unat S)"
      by (auto simp: cur_def min_u32_def usub word_less_nat_alt)
    have "unat dataLen < 2 ^ 32" using unsigned_less [of dataLen] by simp
    then have uadd: "unat (i + cur) = unat i + unat cur"
      using ilt ucur by (simp add: unat_add_lem [THEN iffD1])
    from less.prems obtain j where j: "unat i = unat S * j" by (rule dvdE)
    with ilt have "j * unat S < unat dataLen" by (simp add: mult.commute)
    from ceil_mult_step [OF spos this] j nowrap have "unat i + unat S < 2 ^ 32"
      by (simp add: mult.commute)
    then have uadd2: "unat (i + S) = unat i + unat S"
      by (simp add: unat_add_lem [THEN iffD1])
    have bounds: "unat i \<le> unat (i + cur) \<and> unat (i + cur) \<le> length buf"
      using uadd ucur ilt len by simp
    have seg: "take (unat cur) (drop (unat i) buf) =
               take (unat S) (drop (unat i) (take (unat dataLen) buf))"
      by (simp add: ucur drop_take min.commute)
    have ne: "drop (unat i) (take (unat dataLen) buf) \<noteq> []"
      using ilt len by simp
    have "chopLoop buf S dataLen i segments =
          chopLoop buf S dataLen (i + S)
            (segments @ [take (unat cur) (drop (unat i) buf)])"
      using True bounds by (subst chopLoop.simps) (simp add: cur_def [symmetric] Let_def)
    also have "\<dots> = Some (Returns ((segments @ [take (unat cur) (drop (unat i) buf)]) @
        windows (unat S) (drop (unat (i + S)) (take (unat dataLen) buf))))"
      using ilt spos uadd2 less.prems by (intro less.hyps) simp_all
    also have "(segments @ [take (unat cur) (drop (unat i) buf)]) @
        windows (unat S) (drop (unat (i + S)) (take (unat dataLen) buf)) =
        segments @ windows (unat S) (drop (unat i) (take (unat dataLen) buf))"
    proof -
      have dd: "drop (unat (i + S)) (take (unat dataLen) buf) =
                drop (unat S) (drop (unat i) (take (unat dataLen) buf))"
        by (simp only: drop_drop uadd2 add.commute [of "unat S" "unat i"])
      show ?thesis
        using ne spos by (subst (2) windows.simps) (simp only: dd seg, simp)
    qed
    finally show ?thesis .
  qed
qed

section \<open>The tree built over a range\<close>

lemma rangeTree_Node: "\<exists>l r h. rangeTree hf seg s n = Node l r h"
  by (subst rangeTree.simps) simp

lemma hash_of_rangeTree:
  "hash_of (rangeTree hf seg s n) = Returns (hash (rangeTree hf seg s n))"
  using rangeTree_Node [of hf seg s n] by auto

lemma unat_half_diff:
  fixes d :: uint32
  shows "unat (d - d div 2) = unat d - unat d div 2"
proof -
  have "d div 2 \<le> d"
    by (simp add: word_le_nat_alt unat_div)
  then show ?thesis
    by (simp add: unat_sub unat_div)
qed

lemma buildTree_rangeTree:
  assumes s: "segmentSize mt \<noteq> 0"
  shows "buildTree mt (seg0 # rest) start end' =
           Some (Returns (rangeTree (newHash mt) seg0 (unat (segmentSize mt)) (unat (end' - start))))"
proof (induction "unat (end' - start)" arbitrary: start end' rule: less_induct)
  case less
  let ?S = "segmentSize mt"
  let ?d = "end' - start"
  from s have spos: "0 < unat ?S" by (simp add: unat_gt_0)
  show ?case
  proof (cases "?d \<le> ?S")
    case True
    then have "unat ?d \<le> unat ?S" by (simp add: word_le_nat_alt)
    then show ?thesis using True
      by (subst buildTree.simps, subst rangeTree.simps) simp
  next
    case False
    then have gt: "unat ?S < unat ?d" by (simp add: word_le_nat_alt)
    with spos have two: "2 \<le> unat ?d" by simp
    let ?mid = "start + ?d div 2"
    have dl: "?mid - start = ?d div 2" by simp
    have dr: "end' - ?mid = ?d - ?d div 2" by simp
    have ul: "unat (?mid - start) = unat ?d div 2"
      by (simp only: dl unat_div) simp
    have ur: "unat (end' - ?mid) = unat ?d - unat ?d div 2"
      by (simp only: dr unat_half_diff)
    have L: "buildTree mt (seg0 # rest) start ?mid =
             Some (Returns (rangeTree (newHash mt) seg0 (unat ?S) (unat ?d div 2)))"
      using less [of ?mid start] two ul by simp
    have R: "buildTree mt (seg0 # rest) ?mid end' =
             Some (Returns (rangeTree (newHash mt) seg0 (unat ?S) (unat ?d - unat ?d div 2)))"
      using less [of end' ?mid] two ur by simp
    have rt: "rangeTree (newHash mt) seg0 (unat ?S) (unat ?d) =
        Node (rangeTree (newHash mt) seg0 (unat ?S) (unat ?d div 2))
             (rangeTree (newHash mt) seg0 (unat ?S) (unat ?d - unat ?d div 2))
             (Write_hash (newHash mt ())
                (Sum_hash (hash (rangeTree (newHash mt) seg0 (unat ?S) (unat ?d div 2))) [] @
                 Sum_hash (hash (rangeTree (newHash mt) seg0 (unat ?S) (unat ?d - unat ?d div 2))) []))"
      using gt two by (subst rangeTree.simps) simp
    show ?thesis
      using False
      by (subst buildTree.simps) (simp add: Let_def L R hash_of_rangeTree rt [symmetric])
  qed
qed

lemma leaves_Node: "l \<noteq> nil \<Longrightarrow> leaves (Node l r h) = leaves l + leaves r"
  by (cases l; cases r) simp_all

lemma internals_Node:
  "l \<noteq> nil \<Longrightarrow> internals (Node l r h) = 1 + internals l + internals r"
  by (cases l; cases r) simp_all

lemma full_Node: "l \<noteq> nil \<Longrightarrow> r \<noteq> nil \<Longrightarrow> full (Node l r h) = (full l \<and> full r)"
  by (cases l; cases r) simp_all

lemma leaf_inputs_Node:
  "l \<noteq> nil \<Longrightarrow> leaf_inputs (Node l r h) = leaf_inputs l @ leaf_inputs r"
  by (cases l; cases r) simp_all

lemma rangeTree_not_nil: "rangeTree hf seg s n \<noteq> nil"
  using rangeTree_Node [of hf seg s n] by auto

lemma full_rangeTree: "full (rangeTree hf seg s n)"
proof (induction hf seg s n rule: rangeTree.induct)
  case (1 hf seg s n)
  then show ?case
    by (subst rangeTree.simps) (simp add: full_Node rangeTree_not_nil)
qed

lemma leaves_rangeTree: "leaves (rangeTree hf seg s n) = halvings s n"
proof (induction hf seg s n rule: rangeTree.induct)
  case (1 hf seg s n)
  then show ?case
    by (subst rangeTree.simps, subst halvings.simps) (simp add: leaves_Node rangeTree_not_nil)
qed

lemma halvings_pos: "0 < halvings s n"
proof (induction s n rule: halvings.induct)
  case (1 s n)
  then show ?case by (subst halvings.simps) simp
qed

lemma internals_rangeTree: "internals (rangeTree hf seg s n) = halvings s n - 1"
proof (induction hf seg s n rule: rangeTree.induct)
  case (1 hf seg s n)
  note pos = halvings_pos [of s]
  show ?case
  proof (cases "n \<le> s \<or> n < 2")
    case True
    then show ?thesis by (subst rangeTree.simps, subst halvings.simps) simp
  next
    case False
    with 1 pos [of "n div 2"] pos [of "n - n div 2"] show ?thesis
      by (subst rangeTree.simps, subst halvings.simps)
         (simp add: internals_Node rangeTree_not_nil)
  qed
qed

lemma leaf_inputs_rangeTree:
  "leaf_inputs (rangeTree hf seg s n) = replicate (halvings s n) (written (hf ()) @ seg)"
proof (induction hf seg s n rule: rangeTree.induct)
  case (1 hf seg s n)
  then show ?case
    by (subst rangeTree.simps, subst halvings.simps)
       (simp add: leaf_inputs_Node rangeTree_not_nil Write_hash_def replicate_add)
qed

lemma ceil_div_add:
  fixes a b s :: nat
  assumes "0 < s"
  shows "(a + b + s - 1) div s \<le> (a + s - 1) div s + (b + s - 1) div s"
proof -
  let ?p = "(a + s - 1) div s" and ?q = "(b + s - 1) div s"
  have up: "\<And>x. x \<le> ((x + s - 1) div s) * s"
  proof -
    fix x :: nat
    have "x + s - 1 = ((x + s - 1) div s) * s + (x + s - 1) mod s" by simp
    moreover have "(x + s - 1) mod s \<le> s - 1" using assms
      by (metis Suc_pred le_simps(2) mod_less_divisor One_nat_def)
    ultimately show "x \<le> ((x + s - 1) div s) * s" using assms by linarith
  qed
  have "a + b \<le> (?p + ?q) * s"
    using up [of a] up [of b] by (simp add: add_mult_distrib)
  then have "a + b + s - 1 < s * Suc (?p + ?q)" using assms by (simp add: mult.commute)
  then have "(a + b + s - 1) div s < Suc (?p + ?q)"
    using assms by (simp add: less_mult_imp_div_less mult.commute)
  then show ?thesis by simp
qed

lemma halvings_ge_ceil: "0 < s \<Longrightarrow> (n + s - 1) div s \<le> halvings s n"
proof (induction s n rule: halvings.induct)
  case (1 s n)
  show ?case
  proof (cases "n \<le> s \<or> n < 2")
    case True
    with 1(3) have "n \<le> s" by auto
    then have "n + s - 1 < s * Suc 1" using 1(3) by simp
    then have "(n + s - 1) div s < Suc 1"
      using 1(3) by (simp add: less_mult_imp_div_less mult.commute)
    then show ?thesis using True by (subst halvings.simps) simp
  next
    case False
    have split: "n = n div 2 + (n - n div 2)" by simp
    have "(n + s - 1) div s \<le> (n div 2 + s - 1) div s + ((n - n div 2) + s - 1) div s"
      using ceil_div_add [OF 1(3), of "n div 2" "n - n div 2"] by simp
    also have "\<dots> \<le> halvings s (n div 2) + halvings s (n - n div 2)"
      using 1(1,2) False 1(3) by (simp add: add_mono)
    finally show ?thesis using False by (subst halvings.simps) simp
  qed
qed

lemma halvings_small: "n \<le> s \<Longrightarrow> halvings s n = 1"
  by (subst halvings.simps) simp

section \<open>Runs that never return\<close>

lemma chopLoop_cycle_Some:
  assumes "chopLoop buf S dataLen i segs = Some y"
  shows "\<not> (i \<in> I \<and> (\<forall>j\<in>I. j < dataLen \<and> j + S \<in> I) \<and> unat dataLen \<le> length buf)"
proof (rule chopLoop.raw_induct [where P = "\<lambda>buf S dataLen i segs y.
    \<not> (i \<in> I \<and> (\<forall>j\<in>I. j < dataLen \<and> j + S \<in> I) \<and> unat dataLen \<le> length buf)",
    OF _ assms], goal_cases)
  case (1 chopLoop' buf S dataLen i segs y)
  show ?case
  proof
    assume a: "i \<in> I \<and> (\<forall>j\<in>I. j < dataLen \<and> j + S \<in> I) \<and> unat dataLen \<le> length buf"
    then have lt: "i < dataLen" and nxt: "i + S \<in> I" by auto
    define cur where "cur = min_u32 (dataLen - i) S"
    have usub: "unat (dataLen - i) = unat dataLen - unat i"
      using lt by (simp add: unat_sub order.strict_implies_order)
    have ilt: "unat i < unat dataLen" using lt by (simp add: word_less_nat_alt)
    have ucur: "unat cur \<le> unat dataLen - unat i"
      by (auto simp: cur_def min_u32_def usub word_less_nat_alt)
    have "unat i + unat cur \<le> unat dataLen" using ucur ilt by simp
    moreover have "unat dataLen < 2 ^ 32" using unsigned_less [of dataLen] by simp
    ultimately have uadd: "unat (i + cur) = unat i + unat cur"
      by (simp add: unat_add_lem [THEN iffD1])
    from a have len: "unat dataLen \<le> length buf" by simp
    have bounds: "unat i \<le> unat (i + cur) \<and> unat (i + cur) \<le> length buf"
      using uadd ucur ilt len by simp
    from 1(2) lt bounds
    have "chopLoop' buf S dataLen (i + S) (segs @ [take (unat cur) (drop (unat i) buf)]) = Some y"
      by (simp add: cur_def [symmetric] Let_def)
    from 1(1) [OF this] nxt a show False by simp
  qed
qed

lemma chopLoop_cycle_None:
  assumes "i \<in> I" and "\<forall>j\<in>I. j < dataLen \<and> j + S \<in> I" and "unat dataLen \<le> length buf"
  shows "chopLoop buf S dataLen i segs = None"
proof (cases "chopLoop buf S dataLen i segs")
  case None
  then show ?thesis .
next
  case (Some y)
  from chopLoop_cycle_Some [OF this, of I] assms show ?thesis by simp
qed

lemma unat_of_nat_length_le: "unat (of_nat (length buf) :: uint32) \<le> length buf"
  by (simp add: unat_of_nat)

lemma chopData_zero_None:
  assumes "length buf mod 2 ^ 32 \<noteq> 0"
  shows "chopData buf 0 = None"
proof -
  have "(0::uint32) < of_nat (length buf)"
    using assms by (simp add: word_less_nat_alt unat_of_nat)
  then show ?thesis
    unfolding chopData_def
    by (intro chopLoop_cycle_None [where I = "{0}"]) (simp_all add: unat_of_nat_length_le)
qed

lemma buildTree_zero_Some:
  assumes "buildTree mt segs start end' = Some y"
  shows "segmentSize mt = 0 \<longrightarrow> segs \<noteq> [] \<longrightarrow>
           start = end' \<and> y = Returns (Node nil nil (Write_hash (newHash mt ()) (hd segs)))"
proof (rule buildTree.raw_induct [where P = "\<lambda>mt segs start end' y.
    segmentSize mt = 0 \<longrightarrow> segs \<noteq> [] \<longrightarrow>
           start = end' \<and> y = Returns (Node nil nil (Write_hash (newHash mt ()) (hd segs)))",
    OF _ assms], goal_cases)
  case (1 buildTree' mt segs start end' y)
  show ?case
  proof (intro impI)
    assume z: "segmentSize mt = 0" and ne: "segs \<noteq> []"
    then obtain seg0 rest where segs: "segs = seg0 # rest" by (cases segs) auto
    show "start = end' \<and> y = Returns (Node nil nil (Write_hash (newHash mt ()) (hd segs)))"
    proof (cases "end' - start \<le> 0")
      case True
      with 1(2) z segs show ?thesis by simp
    next
      case False
      let ?mid = "start + (end' - start) div 2"
      from 1(2) False z segs obtain l where
        l: "buildTree' mt segs start ?mid = Some l"
        by (auto simp: Let_def bind_eq_Some_conv)
      from 1(1) [OF l] z ne have mid: "start = ?mid"
        and lv: "l = Returns (Node nil nil (Write_hash (newHash mt ()) (hd segs)))" by auto
      from 1(2) False z segs l lv obtain r where
        r: "buildTree' mt segs ?mid end' = Some r"
        by (auto simp: Let_def bind_eq_Some_conv)
      from 1(1) [OF r] z ne have "?mid = end'" by auto
      with mid have "start = end'" by simp
      with False show ?thesis by simp
    qed
  qed
qed

lemma buildTree_zero_None:
  assumes "segmentSize mt = 0" and "segs \<noteq> []" and "start \<noteq> end'"
  shows "buildTree mt segs start end' = None"
proof (cases "buildTree mt segs start end'")
  case None
  then show ?thesis .
next
  case (Some y)
  from buildTree_zero_Some [OF this] assms show ?thesis by simp
qed

section \<open>Construction\<close>

lemma chopData_windows:
  assumes "S \<noteq> 0" and "(length buf + unat S - 1) div unat S * unat S < 2 ^ 32"
  shows "chopData buf S = Some (Returns (windows (unat S) buf))"
proof -
  from assms have "0 < unat S" by (simp add: unat_gt_0)
  from ceil_mult_ge [OF this, of "length buf"] assms(2) have "length buf < 2 ^ 32" by simp
  then have u: "unat (of_nat (length buf) :: uint32) = length buf"
    by (simp add: unat_of_nat)
  show ?thesis
    unfolding chopData_def
    using assms by (subst chopLoop_windows) (simp_all add: u)
qed

lemma New_rangeTree:
  assumes "S \<noteq> 0" and "buf \<noteq> []"
    and "(length buf + unat S - 1) div unat S * unat S < 2 ^ 32"
  shows "NewMerkleTreeWithCostumHash buf S hf =
           Some (Returns (\<lparr>root = rangeTree hf (take (unat S) buf) (unat S) (length buf),
                            data = buf, segmentSize = S, newHash = hf\<rparr>, None))"
proof -
  from assms have spos: "0 < unat S" by (simp add: unat_gt_0)
  from ceil_mult_ge [OF this, of "length buf"] assms(3) have "length buf < 2 ^ 32" by simp
  then have u: "unat (of_nat (length buf) :: uint32) = length buf"
    by (simp add: unat_of_nat)
  have w: "windows (unat S) buf = take (unat S) buf # windows (unat S) (drop (unat S) buf)"
    using assms(2) spos by (subst windows.simps) simp
  show ?thesis
    unfolding NewMerkleTreeWithCostumHash_def Let_def chopData_windows [OF assms(1,3)]
    by (subst w) (simp add: buildTree_rangeTree assms(1) u)
qed

text \<open>
  What construction returns when the counter of \<open>chopData\<close> does not wrap around: the
  root is present, every node has no child or two children, and there is one leaf for
  each byte range that halving \<open>[0, L)\<close> produces, at least \<open>ceil(L/S)\<close> of them.
\<close>

lemma root_present_and_full:
  assumes "S \<noteq> 0" and "buf \<noteq> []"
    and "(length buf + unat S - 1) div unat S * unat S < 2 ^ 32"
  shows "\<exists>mt. NewMerkleTreeWithCostumHash buf S hf = Some (Returns (mt, None)) \<and>
           root mt \<noteq> nil \<and> full (root mt) \<and>
           leaves (root mt) = halvings (unat S) (length buf) \<and>
           (length buf + unat S - 1) div unat S \<le> leaves (root mt)"
proof -
  from assms have spos: "0 < unat S" by (simp add: unat_gt_0)
  have ge: "(length buf + unat S - 1) div unat S \<le> halvings (unat S) (length buf)"
    using spos by (rule halvings_ge_ceil)
  show ?thesis
    using ge
    by (simp add: New_rangeTree [OF assms] rangeTree_not_nil full_rangeTree leaves_rangeTree)
qed

text \<open>
  Claim C4 fails on the code. For the ten bytes \<open>abcdefghij\<close> with segment size 4 and
  any hash factory, the root is present and every node has no child or two children, but
  the tree does not have one leaf for each segment: \<open>chopData\<close> returns the three
  segments \<open>abcd\<close>, \<open>efgh\<close> and \<open>ij\<close>, \<open>ceil(10/4) = 3\<close>, and \<open>buildTree\<close> makes the
  four leaves of the byte ranges \<open>[0,2)\<close>, \<open>[2,5)\<close>, \<open>[5,7)\<close> and \<open>[7,10)\<close>.
\<close>

theorem ten_bytes_four_leaves:
  "chopData ''abcdefghij'' 4 = Some (Returns [''abcd'', ''efgh'', ''ij'']) \<and>
   (length ''abcdefghij'' + 4 - 1) div 4 = (3 :: nat) \<and>
   (\<exists>r. NewMerkleTreeWithCostumHash ''abcdefghij'' 4 hf =
          Some (Returns (\<lparr>root = r, data = ''abcdefghij'', segmentSize = 4,
                           newHash = hf\<rparr>, None)) \<and>
        r \<noteq> nil \<and> full r \<and> leaves r = 4 \<and>
        shape_of r = Fork (Fork (Fork Tip Tip) (Fork Tip Tip))
                          (Fork (Fork Tip Tip) (Fork Tip Tip)))"
  by (simp add: NewMerkleTreeWithCostumHash_def chopData_def chopLoop.simps min_u32_def
      buildTree.simps Write_hash_def Sum_hash_def)

section \<open>Evaluation of concrete calls\<close>

text \<open>
  The equations that a concrete call is evaluated with.
\<close>

lemmas eval_simps = NewMerkleTreeWithCostumHash_def chopData_def chopLoop.simps min_u32_def
  buildTree.simps Write_hash_def Sum_hash_def GetRootHash_def rootDigest_def is_leaf_def

section \<open>Segmentation, as the claims state it\<close>

text \<open>
  Claim C10, as the code has it. For a segment size \<open>S \<ge> 1\<close> and a buffer of length
  \<open>L\<close> with \<open>S * ceil(L/S) < 2^32\<close>, which holds whenever \<open>L + S \<le> 2^32\<close>, the counter
  of the loop does not wrap around and \<open>chopData\<close> returns \<open>ceil(L/S)\<close> segments; segment
  \<open>j\<close> is the window of the buffer that starts at byte \<open>j * S\<close> and holds
  \<open>min(S, L - j * S)\<close> bytes, at least one; the segments put together are the buffer;
  the empty buffer gives no segment.
\<close>

theorem chopData_segments:
  assumes "S \<noteq> 0" and "(length buf + unat S - 1) div unat S * unat S < 2 ^ 32"
  shows "\<exists>segs. chopData buf S = Some (Returns segs) \<and>
           length segs = (length buf + unat S - 1) div unat S \<and>
           concat segs = buf \<and>
           (\<forall>j<length segs.
              segs ! j = take (unat S) (drop (j * unat S) buf) \<and>
              length (segs ! j) = min (unat S) (length buf - j * unat S) \<and>
              0 < length (segs ! j)) \<and>
           (buf = [] \<longrightarrow> segs = [])"
proof -
  from assms have spos: "0 < unat S" by (simp add: unat_gt_0)
  let ?w = "windows (unat S) buf"
  have n: "length ?w = (length buf + unat S - 1) div unat S"
    using spos by (rule length_windows)
  have nth: "?w ! j = take (unat S) (drop (j * unat S) buf)" if "j < length ?w" for j
    using spos that by (rule nth_windows)
  have pos: "j * unat S < length buf" if "j < length ?w" for j
  proof -
    from that n have "j < (length buf + unat S - 1) div unat S" by simp
    then have "Suc j \<le> (length buf + unat S - 1) div unat S" by simp
    then have "Suc j * unat S \<le> (length buf + unat S - 1) div unat S * unat S"
      by (rule mult_le_mono1)
    also have "\<dots> \<le> length buf + unat S - 1" by simp
    finally show ?thesis using spos by simp
  qed
  have every: "\<forall>j<length ?w. ?w ! j = take (unat S) (drop (j * unat S) buf) \<and>
          length (?w ! j) = min (unat S) (length buf - j * unat S) \<and> 0 < length (?w ! j)"
    using spos pos by (auto simp: nth)
  show ?thesis
  proof (intro exI [of _ ?w] conjI)
    show "chopData buf S = Some (Returns ?w)" by (rule chopData_windows [OF assms])
    show "length ?w = (length buf + unat S - 1) div unat S" by (rule n)
    show "concat ?w = buf" using spos by (rule concat_windows)
    show "\<forall>j<length ?w. ?w ! j = take (unat S) (drop (j * unat S) buf) \<and>
          length (?w ! j) = min (unat S) (length buf - j * unat S) \<and> 0 < length (?w ! j)"
      by (rule every)
    show "buf = [] \<longrightarrow> ?w = []" by simp
  qed
qed

text \<open>
  Claim C10 at the nine bytes \<open>abcdefghi\<close> with segment size 4.
\<close>

theorem chopData_segments_witness:
  "(4 :: uint32) \<noteq> 0 \<and>
   (length ''abcdefghi'' + unat (4 :: uint32) - 1) div unat (4 :: uint32) * unat (4 :: uint32)
     < 2 ^ 32 \<and>
   (\<exists>segs. chopData ''abcdefghi'' 4 = Some (Returns segs) \<and> length segs = 3 \<and>
      concat segs = ''abcdefghi'' \<and>
      (\<forall>j<length segs. segs ! j = take 4 (drop (j * 4) ''abcdefghi'')))"
proof -
  have h1: "(4 :: uint32) \<noteq> 0" by simp
  have h2: "(length ''abcdefghi'' + unat (4 :: uint32) - 1) div unat (4 :: uint32) *
      unat (4 :: uint32) < 2 ^ 32" by simp
  have "(length ''abcdefghi'' + unat (4 :: uint32) - 1) div unat (4 :: uint32) = 3" by simp
  with chopData_segments [OF h1 h2] h1 h2 show ?thesis
    by auto
qed

text \<open>
  Claim C10 as the specification states it, for every buffer, fails for a buffer of
  \<open>2^32\<close> bytes: \<open>uint32(len(data))\<close> is 0, the loop is not entered, and no segment is
  returned for a non-empty buffer.
\<close>

theorem chopData_segments_counterexample:
  "replicate (2 ^ 32) (CHR ''a'') \<noteq> [] \<and>
   chopData (replicate (2 ^ 32) (CHR ''a'')) 1 = Some (Returns [])"
  by (simp add: chopData_def chopLoop.simps)

section \<open>Termination of construction\<close>

lemma New_returns:
  assumes "S \<noteq> 0" and "(length buf + unat S - 1) div unat S * unat S < 2 ^ 32"
  shows "\<exists>r. NewMerkleTreeWithCostumHash buf S hf =
           Some (Returns (\<lparr>root = r, data = buf, segmentSize = S, newHash = hf\<rparr>, None))"
proof (cases "buf = []")
  case True
  then show ?thesis by (simp add: New_empty)
next
  case False
  then show ?thesis by (simp add: New_rangeTree [OF assms(1) _ assms(2)])
qed

lemma New_zero_None:
  assumes "length buf mod 2 ^ 32 \<noteq> 0"
  shows "NewMerkleTreeWithCostumHash buf 0 hf = None"
  by (simp add: NewMerkleTreeWithCostumHash_def chopData_zero_None [OF assms])

lemma chopLoop_no_panic:
  assumes run: "chopLoop buf S dataLen i segs = Some y"
  shows "unat dataLen \<le> length buf \<longrightarrow> (\<exists>segs'. y = Returns segs')"
proof (rule chopLoop.raw_induct [where P = "\<lambda>buf S dataLen i segs y.
    unat dataLen \<le> length buf \<longrightarrow> (\<exists>segs'. y = Returns segs')", OF _ run], goal_cases)
  case (1 f buf S dataLen i segs y)
  show ?case
  proof
    assume len: "unat dataLen \<le> length buf"
    show "\<exists>segs'. y = Returns segs'"
    proof (cases "i < dataLen")
      case False
      with 1(2) show ?thesis by auto
    next
      case True
      define cur where "cur = min_u32 (dataLen - i) S"
      have usub: "unat (dataLen - i) = unat dataLen - unat i"
        using True by (simp add: unat_sub order.strict_implies_order)
      have ilt: "unat i < unat dataLen" using True by (simp add: word_less_nat_alt)
      have ucur: "unat cur \<le> unat dataLen - unat i"
        by (auto simp: cur_def min_u32_def usub word_less_nat_alt)
      have "unat i + unat cur \<le> unat dataLen" using ucur ilt by simp
      moreover have "unat dataLen < 2 ^ 32" using unsigned_less [of dataLen] by simp
      ultimately have uadd: "unat (i + cur) = unat i + unat cur"
        by (simp add: unat_add_lem [THEN iffD1])
      have bounds: "unat i \<le> unat (i + cur) \<and> unat (i + cur) \<le> length buf"
        using uadd ucur ilt len by simp
      from 1(2) True bounds
      have "f buf S dataLen (i + S) (segs @ [take (unat cur) (drop (unat i) buf)]) = Some y"
        by (simp add: cur_def [symmetric] Let_def)
      from 1(1) [OF this] len show ?thesis by simp
    qed
  qed
qed

lemma chopData_no_panic: "chopData buf S \<noteq> Some (Panics p)"
  using chopLoop_no_panic [of buf S "of_nat (length buf)" 0 "[]" "Panics p"]
  by (auto simp: chopData_def unat_of_nat_length_le)

lemma buildTree_no_panic_Some:
  assumes run: "buildTree mt segs start end' = Some y"
  shows "\<exists>n. y = Returns n \<and> (n = nil \<longleftrightarrow> segs = [])"
proof (rule buildTree.raw_induct [where P = "\<lambda>mt segs start end' y.
    \<exists>n. y = Returns n \<and> (n = nil \<longleftrightarrow> segs = [])", OF _ run], goal_cases)
  case (1 f mt segs start end' y)
  show ?case
  proof (cases segs)
    case Nil
    with 1(2) show ?thesis by simp
  next
    case (Cons seg0 rest)
    show ?thesis
    proof (cases "end' - start \<le> segmentSize mt")
      case True
      with 1(2) Cons show ?thesis by auto
    next
      case False
      let ?mid = "start + (end' - start) div 2"
      from 1(2) False Cons obtain l where l: "f mt segs start ?mid = Some l"
        by (auto simp: Let_def bind_eq_Some_conv)
      from 1(1) [OF l] Cons obtain ll lr lh where lv: "l = Returns (Node ll lr lh)"
        by (metis list.distinct(1) node.exhaust)
      from 1(2) False Cons l lv obtain r where r: "f mt segs ?mid end' = Some r"
        by (auto simp: Let_def bind_eq_Some_conv)
      from 1(1) [OF r] Cons obtain rl rr rh where rv: "r = Returns (Node rl rr rh)"
        by (metis list.distinct(1) node.exhaust)
      from 1(2) False Cons l lv r rv show ?thesis
        by (auto simp: Let_def)
    qed
  qed
qed

lemma New_no_panic:
  assumes "NewMerkleTreeWithCostumHash buf S hf = Some r"
  shows "\<exists>n. r = Returns (\<lparr>root = n, data = buf, segmentSize = S, newHash = hf\<rparr>, None)"
  using assms chopData_no_panic [of buf S]
  by (auto simp: NewMerkleTreeWithCostumHash_def Let_def
      split: option.splits result.splits dest: buildTree_no_panic_Some)

text \<open>
  Claim C8, as the code has it. Construction never panics and never returns an error:
  whenever it returns, it returns a tree and the nil error. It returns whenever
  \<open>S \<ge> 1\<close> and \<open>S * ceil(L/S) < 2^32\<close>. With segment size 0 and a buffer whose length is not
  a multiple of \<open>2^32\<close> construction never returns, since the loop of \<open>chopData\<close> never
  advances; \<open>buildTree\<close> on its own never returns either when the segment size is 0, the
  segment list is not empty and \<open>start\<close> differs from \<open>end\<close>.
\<close>

theorem construction_terminates:
  "(\<forall>r. NewMerkleTreeWithCostumHash buf S hf = Some r \<longrightarrow>
      (\<exists>n. r = Returns (\<lparr>root = n, data = buf, segmentSize = S, newHash = hf\<rparr>, None))) \<and>
   (S \<noteq> 0 \<and> (length buf + unat S - 1) div unat S * unat S < 2 ^ 32 \<longrightarrow>
      NewMerkleTreeWithCostumHash buf S hf \<noteq> None) \<and>
   (length buf mod 2 ^ 32 \<noteq> 0 \<longrightarrow> NewMerkleTreeWithCostumHash buf 0 hf = None) \<and>
   (segmentSize mt = 0 \<and> segs \<noteq> [] \<and> start \<noteq> end' \<longrightarrow>
      buildTree mt segs start end' = None)"
  using New_returns [of S buf hf] New_zero_None [of buf hf] New_no_panic [of buf S hf]
    buildTree_zero_None [of mt segs start end']
  by auto

text \<open>
  Claim C8 at eight bytes with segment size 4, at one byte with segment size 0, and at
  the range \<open>[0, 1)\<close> with segment size 0.
\<close>

theorem construction_terminates_witness:
  "NewMerkleTreeWithCostumHash ''abcdefgh'' 4 (hashNew id) =
      Some (Returns (\<lparr>root = Node (Node nil nil (Hasher id ''abcd''))
                                   (Node nil nil (Hasher id ''abcd''))
                                   (Hasher id ''abcdabcd''),
                       data = ''abcdefgh'', segmentSize = 4, newHash = hashNew id\<rparr>, None)) \<and>
   NewMerkleTreeWithCostumHash ''a'' 0 (hashNew id) = None \<and>
   buildTree \<lparr>root = nil, data = ''a'', segmentSize = 0, newHash = hashNew id\<rparr> [''a''] 0 1
     = None"
proof -
  let ?mt0 = "\<lparr>root = nil, data = ''a'', segmentSize = 0, newHash = hashNew id\<rparr>"
  have v: "NewMerkleTreeWithCostumHash ''abcdefgh'' 4 (hashNew id) =
      Some (Returns (\<lparr>root = Node (Node nil nil (Hasher id ''abcd''))
                                   (Node nil nil (Hasher id ''abcd''))
                                   (Hasher id ''abcdabcd''),
                       data = ''abcdefgh'', segmentSize = 4, newHash = hashNew id\<rparr>, None))"
    by (simp add: eval_simps hashNew_def)
  have "NewMerkleTreeWithCostumHash ''abcdefgh'' 4 (hashNew id) \<noteq> None"
    using construction_terminates [of "''abcdefgh''" 4 "hashNew id" ?mt0 "[''a'']" 0 1] by simp
  moreover have "NewMerkleTreeWithCostumHash ''a'' 0 (hashNew id) = None \<and>
      buildTree ?mt0 [''a''] 0 1 = None"
    using construction_terminates [of "''a''" 0 "hashNew id" ?mt0 "[''a'']" 0 1] by simp
  ultimately show ?thesis using v by simp
qed

text \<open>
  Claim C8 as the specification states it, termination for every buffer when
  \<open>S \<ge> 1\<close>, fails for \<open>2^31 + 1\<close> bytes with segment size \<open>2^31\<close>: the counter of
  \<open>chopData\<close> goes from 0 to \<open>2^31\<close> and wraps around to 0, and the loop never ends.
\<close>

theorem construction_terminates_counterexample:
  "NewMerkleTreeWithCostumHash (replicate (2 ^ 31 + 1) (CHR ''a'')) (2 ^ 31) (hashNew id) = None"
proof -
  have "chopLoop (replicate (2 ^ 31 + 1) (CHR ''a'')) (2 ^ 31) (2 ^ 31 + 1) 0 [] = None"
    by (rule chopLoop_cycle_None [where I = "{0, 2 ^ 31}"]) simp_all
  then have "chopData (replicate (2 ^ 31 + 1) (CHR ''a'')) (2 ^ 31) = None"
    by (simp add: chopData_def)
  then show ?thesis
    by (simp add: NewMerkleTreeWithCostumHash_def)
qed

section \<open>The empty tree\<close>

text \<open>
  Claim C7, as the code has it. A buffer of length 0 gives a tree whose root is nil, for
  every segment size, and \<open>GetRootHash\<close> on that tree panics with a nil pointer
  dereference: the code has no guard and \<open>GetRootHash\<close> has no error result.
\<close>

theorem empty_tree_root_hash_panics:
  "NewMerkleTreeWithCostumHash [] S hf =
     Some (Returns (\<lparr>root = nil, data = [], segmentSize = S, newHash = hf\<rparr>, None)) \<and>
   GetRootHash \<lparr>root = nil, data = [], segmentSize = S, newHash = hf\<rparr> =
     Panics NilPointerDereference \<and>
   rootDigest [] S hf = Some (Panics NilPointerDereference)"
  by (simp add: New_empty GetRootHash_def rootDigest_def)

text \<open>
  Claim C7 as the specification states it, an error rather than a crash, fails: the
  caller that builds a tree from the empty buffer and asks for the root digest panics.
\<close>

theorem empty_tree_root_hash_counterexample:
  "rootDigest [] 4 (hashNew id) = Some (Panics NilPointerDereference)"
  by (simp add: New_empty GetRootHash_def rootDigest_def)

section \<open>Concrete trees\<close>

text \<open>
  Claim C9, as the code has it. The nine bytes \<open>abcdefghi\<close> with segment size 4 are
  cut into \<open>abcd\<close>, \<open>efgh\<close> and \<open>i\<close>. The tree has three leaves and two internal
  nodes: the left child of the root is a leaf, for the range \<open>[0, 4)\<close>, and the right
  child of the root is an internal node with two leaves, for the range \<open>[4, 9)\<close>.
\<close>

theorem nine_bytes_shape:
  "chopData ''abcdefghi'' 4 = Some (Returns [''abcd'', ''efgh'', ''i'']) \<and>
   (\<exists>l rl rr hr h.
      NewMerkleTreeWithCostumHash ''abcdefghi'' 4 hf =
        Some (Returns (\<lparr>root = Node l (Node rl rr hr) h, data = ''abcdefghi'',
                         segmentSize = 4, newHash = hf\<rparr>, None)) \<and>
      is_leaf l \<and> is_leaf rl \<and> is_leaf rr \<and>
      leaves (Node l (Node rl rr hr) h) = 3 \<and> internals (Node l (Node rl rr hr) h) = 2)"
  by (simp add: eval_simps)

text \<open>
  Claim C9 as the specification states it fails: the right child of the root is not a
  leaf, and the left subtree has one leaf, not two.
\<close>

theorem nine_bytes_shape_counterexample:
  "map_option (map_result (is_leaf \<circ> right \<circ> root \<circ> fst))
     (NewMerkleTreeWithCostumHash ''abcdefghi'' 4 (hashNew id)) = Some (Returns False) \<and>
   map_option (map_result (leaves \<circ> left \<circ> root \<circ> fst))
     (NewMerkleTreeWithCostumHash ''abcdefghi'' 4 (hashNew id)) = Some (Returns 1)"
  by (simp add: eval_simps hashNew_def)

section \<open>Every leaf hashes the first segment\<close>

text \<open>
  Two runs of the loop of \<open>chopData\<close> over buffers of the same length that agree on
  their first \<open>min(S, L)\<close> bytes take the same steps, and the lists they return have the
  same first segment.
\<close>

lemma chopLoop_agree_Some:
  assumes run: "chopLoop d1 S n i segs1 = Some r1"
  shows "\<forall>segs2. length d1 = length d2 \<and>
           take (min (unat S) (length d1)) d1 = take (min (unat S) (length d1)) d2 \<and>
           ((i = 0 \<and> segs1 = [] \<and> segs2 = []) \<or> (segs1 \<noteq> [] \<and> take 1 segs1 = take 1 segs2)) \<longrightarrow>
           (\<exists>r2. chopLoop d2 S n i segs2 = Some r2 \<and>
                 map_result (take 1) r1 = map_result (take 1) r2)"
proof (rule chopLoop.raw_induct [where P = "\<lambda>d1 S n i segs1 r1. \<forall>segs2. length d1 = length d2 \<and>
           take (min (unat S) (length d1)) d1 = take (min (unat S) (length d1)) d2 \<and>
           ((i = 0 \<and> segs1 = [] \<and> segs2 = []) \<or> (segs1 \<noteq> [] \<and> take 1 segs1 = take 1 segs2)) \<longrightarrow>
           (\<exists>r2. chopLoop d2 S n i segs2 = Some r2 \<and>
                 map_result (take 1) r1 = map_result (take 1) r2)", OF _ run], goal_cases)
  case (1 f d1 S n i segs1 r1)
  show ?case
  proof (intro allI impI)
    fix segs2
    assume a: "length d1 = length d2 \<and>
           take (min (unat S) (length d1)) d1 = take (min (unat S) (length d1)) d2 \<and>
           ((i = 0 \<and> segs1 = [] \<and> segs2 = []) \<or> (segs1 \<noteq> [] \<and> take 1 segs1 = take 1 segs2))"
    then have len: "length d1 = length d2"
      and pre: "take (min (unat S) (length d1)) d1 = take (min (unat S) (length d1)) d2"
      and inv: "(i = 0 \<and> segs1 = [] \<and> segs2 = []) \<or> (segs1 \<noteq> [] \<and> take 1 segs1 = take 1 segs2)"
      by blast+
    show "\<exists>r2. chopLoop d2 S n i segs2 = Some r2 \<and>
                 map_result (take 1) r1 = map_result (take 1) r2"
    proof (cases "i < n")
      case False
      with 1(2) have r1: "r1 = Returns segs1" by simp
      have "chopLoop d2 S n i segs2 = Some (Returns segs2)"
        using False by (subst chopLoop.simps) simp
      with r1 inv show ?thesis by auto
    next
      case True
      define cur where "cur = min_u32 (n - i) S"
      show ?thesis
      proof (cases "unat i \<le> unat (i + cur) \<and> unat (i + cur) \<le> length d1")
        case False
        with 1(2) True have r1: "r1 = Panics SliceBoundsOutOfRange"
          by (simp add: cur_def [symmetric] Let_def)
        have "chopLoop d2 S n i segs2 = Some (Panics SliceBoundsOutOfRange)"
          using True False len by (subst chopLoop.simps) (auto simp: cur_def [symmetric] Let_def)
        with r1 show ?thesis by simp
      next
        case ok: True
        let ?s1 = "take (unat cur) (drop (unat i) d1)"
        let ?s2 = "take (unat cur) (drop (unat i) d2)"
        from 1(2) True ok have step1: "f d1 S n (i + S) (segs1 @ [?s1]) = Some r1"
          by (simp add: cur_def [symmetric] Let_def)
        have step2: "chopLoop d2 S n i segs2 = chopLoop d2 S n (i + S) (segs2 @ [?s2])"
          using True ok len by (subst chopLoop.simps) (simp add: cur_def [symmetric] Let_def)
        have inv': "segs1 @ [?s1] \<noteq> [] \<and> take 1 (segs1 @ [?s1]) = take 1 (segs2 @ [?s2])"
          using inv
        proof
          assume z: "i = 0 \<and> segs1 = [] \<and> segs2 = []"
          have "unat cur \<le> unat S"
            by (auto simp: cur_def min_u32_def word_less_nat_alt word_le_nat_alt)
          moreover from ok z have "unat cur \<le> length d1" by simp
          ultimately have le: "unat cur \<le> min (unat S) (length d1)" by simp
          have "take (unat cur) d1 = take (unat cur) (take (min (unat S) (length d1)) d1)"
            using le by (simp add: min_absorb1)
          also have "\<dots> = take (unat cur) (take (min (unat S) (length d1)) d2)"
            by (simp only: pre)
          also have "\<dots> = take (unat cur) d2"
            using le by (simp add: min_absorb1)
          finally show ?thesis using z by simp
        next
          assume nz: "segs1 \<noteq> [] \<and> take 1 segs1 = take 1 segs2"
          then show ?thesis by (cases segs1; cases segs2) auto
        qed
        from 1(1) [OF step1, rule_format, of "segs2 @ [?s2]"] len pre inv' step2
        show ?thesis by simp
      qed
    qed
  qed
qed

lemma chopData_agree_Some:
  assumes "chopData d1 S = Some r1" and "length d1 = length d2"
    and "take (min (unat S) (length d1)) d1 = take (min (unat S) (length d1)) d2"
  shows "\<exists>r2. chopData d2 S = Some r2 \<and> map_result (take 1) r1 = map_result (take 1) r2"
  using chopLoop_agree_Some [of d1 S "of_nat (length d1)" 0 "[]" r1 d2] assms
  by (simp add: chopData_def)

lemma chopData_agree:
  assumes len: "length d1 = length d2"
    and pre: "take (min (unat S) (length d1)) d1 = take (min (unat S) (length d1)) d2"
  shows "map_option (map_result (take 1)) (chopData d1 S) =
         map_option (map_result (take 1)) (chopData d2 S)"
proof (cases "chopData d1 S")
  case None
  have "chopData d2 S = None"
  proof (cases "chopData d2 S")
    case (Some r2)
    from chopData_agree_Some [OF Some len [symmetric]] pre len None show ?thesis by simp
  qed simp
  with None show ?thesis by simp
next
  case (Some r1)
  from chopData_agree_Some [OF Some len pre] Some show ?thesis by auto
qed

lemma buildTree_first_segment:
  assumes "segmentSize mt \<noteq> 0" and "segmentSize mt' = segmentSize mt"
    and "newHash mt' = newHash mt" and "take 1 segs = take 1 segs'"
  shows "buildTree mt segs a b = buildTree mt' segs' a b"
proof (cases segs)
  case Nil
  with assms(4) have "segs' = []" by (cases segs') auto
  with Nil show ?thesis by (simp add: buildTree.simps)
next
  case (Cons x xs)
  with assms(4) obtain ys where "segs' = x # ys" by (cases segs') auto
  with Cons assms(1-3) show ?thesis by (simp add: buildTree_rangeTree)
qed

lemma rootDigest_via_root:
  "rootDigest d S hf =
     map_option (\<lambda>r. case r of Panics p \<Rightarrow> Panics p
                   | Returns n \<Rightarrow> GetRootHash \<lparr>root = n, data = [], segmentSize = 0, newHash = hf\<rparr>)
       (map_option (map_result (root \<circ> fst)) (NewMerkleTreeWithCostumHash d S hf))"
  by (auto simp: rootDigest_def GetRootHash_def split: option.splits result.splits)

lemma New_agree:
  assumes "S \<noteq> 0" and len: "length d1 = length d2"
    and pre: "take (min (unat S) (length d1)) d1 = take (min (unat S) (length d1)) d2"
  shows "map_option (map_result (root \<circ> fst)) (NewMerkleTreeWithCostumHash d1 S hf) =
         map_option (map_result (root \<circ> fst)) (NewMerkleTreeWithCostumHash d2 S hf)"
proof -
  let ?mt1 = "\<lparr>root = nil, data = d1, segmentSize = S, newHash = hf\<rparr>"
  let ?mt2 = "\<lparr>root = nil, data = d2, segmentSize = S, newHash = hf\<rparr>"
  let ?n = "of_nat (length d1) :: uint32"
  have n2: "(of_nat (length d2) :: uint32) = ?n" by (simp add: len)
  note agree = chopData_agree [OF len pre]
  show ?thesis
  proof (cases "chopData d1 S")
    case None
    with agree have "chopData d2 S = None" by simp
    with None show ?thesis by (simp add: NewMerkleTreeWithCostumHash_def)
  next
    case (Some r1)
    with agree obtain r2 where r2: "chopData d2 S = Some r2"
      and rel: "map_result (take 1) r1 = map_result (take 1) r2"
      by (cases "chopData d2 S") auto
    show ?thesis
    proof (cases r1)
      case (Panics p)
      with rel have "r2 = Panics p" by (cases r2) auto
      with Panics Some r2 show ?thesis by (simp add: NewMerkleTreeWithCostumHash_def)
    next
      case (Returns s1)
      with rel obtain s2 where s2: "r2 = Returns s2" and t: "take 1 s1 = take 1 s2"
        by (cases r2) auto
      have bt: "buildTree ?mt1 s1 0 ?n = buildTree ?mt2 s2 0 ?n"
        using assms(1) t by (intro buildTree_first_segment) simp_all
      show ?thesis
        using Some r2 Returns s2
        by (simp add: NewMerkleTreeWithCostumHash_def n2 bt split: option.splits result.splits)
    qed
  qed
qed

lemma leaf_inputs_first_segment:
  assumes "S \<noteq> 0" and "buf \<noteq> []"
    and "(length buf + unat S - 1) div unat S * unat S < 2 ^ 32"
  shows "\<exists>mt. NewMerkleTreeWithCostumHash buf S hf = Some (Returns (mt, None)) \<and>
           leaf_inputs (root mt) =
             replicate (leaves (root mt)) (written (hf ()) @ take (unat S) buf)"
  by (simp add: New_rangeTree [OF assms] leaf_inputs_rangeTree leaves_rangeTree)

text \<open>
  Claim C6. For a segment size \<open>S \<ge> 1\<close> and two buffers of equal length that agree on
  their first \<open>min(S, length)\<close> bytes, construction with the same hash factory has the
  same outcome, with the same root node, and the caller that asks for the root digest
  receives the same value: the root digest depends on the length of the buffer, on \<open>S\<close>
  and on the first segment only.
\<close>

theorem first_segment_decides_root:
  assumes "S \<noteq> 0" and "length d1 = length d2"
    and "take (min (unat S) (length d1)) d1 = take (min (unat S) (length d1)) d2"
  shows "rootDigest d1 S hf = rootDigest d2 S hf \<and>
         map_option (map_result (root \<circ> fst)) (NewMerkleTreeWithCostumHash d1 S hf) =
         map_option (map_result (root \<circ> fst)) (NewMerkleTreeWithCostumHash d2 S hf)"
  using New_agree [OF assms, of hf]
  by (simp only: rootDigest_via_root [of d1] rootDigest_via_root [of d2])

text \<open>
  Claim C6 at \<open>abcdefgh\<close> and \<open>abcdWXYZ\<close> with segment size 4, with a hashing context
  whose digest is the bytes written to it.
\<close>

theorem first_segment_decides_root_witness:
  "(4 :: uint32) \<noteq> 0 \<and> length ''abcdefgh'' = length ''abcdWXYZ'' \<and>
   take (min (unat (4 :: uint32)) (length ''abcdefgh'')) ''abcdefgh'' =
     take (min (unat (4 :: uint32)) (length ''abcdefgh'')) ''abcdWXYZ'' \<and>
   rootDigest ''abcdefgh'' 4 (hashNew id) = rootDigest ''abcdWXYZ'' 4 (hashNew id) \<and>
   rootDigest ''abcdefgh'' 4 (hashNew id) = Some (Returns ''abcdabcd'')"
proof -
  have h1: "(4 :: uint32) \<noteq> 0" by simp
  have h2: "length ''abcdefgh'' = length ''abcdWXYZ''" by simp
  have h3: "take (min (unat (4 :: uint32)) (length ''abcdefgh'')) ''abcdefgh'' =
     take (min (unat (4 :: uint32)) (length ''abcdefgh'')) ''abcdWXYZ''" by simp
  have v: "rootDigest ''abcdefgh'' 4 (hashNew id) = Some (Returns ''abcdabcd'')"
    by (simp add: eval_simps hashNew_def)
  from first_segment_decides_root [OF h1 h2 h3, of "hashNew id"] h1 h2 h3 v
  show ?thesis by blast
qed

text \<open>
  Claim C1 fails on the code. For the buffer \<open>abcdefgh\<close> with segment size 4 and any
  digest function \<open>H\<close>, the segments are \<open>abcd\<close> and \<open>efgh\<close>, but both leaves hash
  \<open>abcd\<close>, and the root digest is \<open>H(H(abcd) || H(abcd))\<close>; it is the value of the
  claim, \<open>H(H(abcd) || H(efgh))\<close>, only if these two digests collide.
\<close>

theorem leaves_hash_first_segment_abcdefgh:
  "chopData ''abcdefgh'' 4 = Some (Returns [''abcd'', ''efgh'']) \<and>
   NewMerkleTree (hashNew H) ''abcdefgh'' 4 =
     Some (Returns (\<lparr>root = Node (Node nil nil (Hasher H ''abcd''))
                                  (Node nil nil (Hasher H ''abcd''))
                                  (Hasher H (H ''abcd'' @ H ''abcd'')),
                      data = ''abcdefgh'', segmentSize = 4, newHash = hashNew H\<rparr>, None)) \<and>
   rootDigest ''abcdefgh'' 4 (hashNew H) = Some (Returns (H (H ''abcd'' @ H ''abcd''))) \<and>
   (rootDigest ''abcdefgh'' 4 (hashNew H) = Some (Returns (H (H ''abcd'' @ H ''efgh''))) \<longleftrightarrow>
      H (H ''abcd'' @ H ''abcd'') = H (H ''abcd'' @ H ''efgh''))"
  by (simp add: NewMerkleTree_def eval_simps hashNew_def)

text \<open>
  Claim C1 with a hashing context whose digest is the bytes written to it: the root
  digest is \<open>abcdabcd\<close> and not \<open>abcdefgh\<close>.
\<close>

theorem leaves_hash_first_segment_witness:
  "rootDigest ''abcdefgh'' 4 (hashNew id) = Some (Returns ''abcdabcd'') \<and>
   rootDigest ''abcdefgh'' 4 (hashNew id) \<noteq> Some (Returns (id (id ''abcd'' @ id ''efgh'')))"
  using leaves_hash_first_segment_abcdefgh [of id] by simp

lemma tamper_beyond_first_segment:
  assumes "S \<noteq> 0" and "unat S \<le> p"
  shows "rootDigest (buf[p := c]) S hf = rootDigest buf S hf"
proof -
  have "take (min (unat S) (length (buf[p := c]))) (buf[p := c]) =
        take (min (unat S) (length (buf[p := c]))) buf"
    using assms(2) by simp
  from New_agree [OF assms(1) _ this, of hf] show ?thesis
    by (simp only: rootDigest_via_root [of "buf[p := c]"] rootDigest_via_root [of buf]) simp
qed

text \<open>
  Claim C5 fails on the code. For the buffer \<open>abcdefgh\<close> with segment size 4 and any
  digest function \<open>H\<close>, changing the last byte from \<open>h\<close> to \<open>i\<close> leaves the root digest
  as it was.
\<close>

theorem tamper_last_byte_same_root:
  "rootDigest ''abcdefgh'' 4 (hashNew H) = Some (Returns (H (H ''abcd'' @ H ''abcd''))) \<and>
   rootDigest (''abcdefgh''[7 := CHR ''i'']) 4 (hashNew H) =
     Some (Returns (H (H ''abcd'' @ H ''abcd''))) \<and>
   ''abcdefgh''[7 := CHR ''i''] = ''abcdefgi''"
  by (simp add: eval_simps hashNew_def)

section \<open>Equality and validation\<close>

lemma subTreeEquals_shape: "subTreeEquals n ot = (shape_of n = shape_of ot)"
proof (induction n arbitrary: ot)
  case nil
  then show ?case by (cases ot) simp_all
next
  case (Node l r h)
  then show ?case by (cases ot) simp_all
qed

lemma Equals_refl: "Equals mt mt"
  by (simp add: Equals_def subTreeEquals_shape)

lemma Validate_unmodified:
  assumes "NewMerkleTreeWithCostumHash d S hf = Some (Returns (mt, e))"
  shows "Validate mt = Some (Returns (True, None))"
proof -
  from assms have "data mt = d \<and> segmentSize mt = S \<and> newHash mt = hf \<and> e = None"
    by (auto simp: NewMerkleTreeWithCostumHash_def Let_def split: option.splits result.splits)
  with assms show ?thesis
    by (simp add: Validate_def Equals_refl)
qed

text \<open>
  \<open>Equals\<close> compares the shapes of two trees, and the shape of a tree depends on the
  length of the buffer and on the segment size only: trees built from buffers of the same
  length are equal for \<open>Equals\<close>, and \<open>Validate\<close> accepts a replaced buffer of the same
  length.
\<close>

lemma shape_of_rangeTree:
  "shape_of (rangeTree hf seg s n) = shape_of (rangeTree hf' seg' s n)"
proof (induction hf seg s n rule: rangeTree.induct)
  case (1 hf seg s n)
  then show ?case
    by (subst rangeTree.simps, subst (2) rangeTree.simps) simp
qed

lemma Equals_same_length:
  assumes "S \<noteq> 0" and "length d1 = length d2"
    and "(length d1 + unat S - 1) div unat S * unat S < 2 ^ 32"
  shows "\<exists>t1 t2. NewMerkleTreeWithCostumHash d1 S hf = Some (Returns (t1, None)) \<and>
           NewMerkleTreeWithCostumHash d2 S hf = Some (Returns (t2, None)) \<and> Equals t1 t2"
proof (cases "d1 = []")
  case True
  with assms(2) have "d2 = []" by simp
  with True show ?thesis by (simp add: New_empty Equals_def)
next
  case False
  with assms(2) have ne2: "d2 \<noteq> []" by auto
  from assms(2,3) have nw2: "(length d2 + unat S - 1) div unat S * unat S < 2 ^ 32" by simp
  show ?thesis
    by (simp add: New_rangeTree [OF assms(1) False assms(3)]
        New_rangeTree [OF assms(1) ne2 nw2] Equals_def subTreeEquals_shape assms(2)
        shape_of_rangeTree [of hf "take (unat S) d1" _ _ hf "take (unat S) d2"])
qed

lemma Validate_replaced_same_length:
  assumes "S \<noteq> 0" and "length d1 = length d2"
    and "(length d1 + unat S - 1) div unat S * unat S < 2 ^ 32"
    and "NewMerkleTreeWithCostumHash d1 S hf = Some (Returns (mt, e))"
  shows "Validate (mt\<lparr>data := d2\<rparr>) = Some (Returns (True, None))"
proof -
  from Equals_same_length [OF assms(1-3), of hf] assms(4) obtain t2 where
    t2: "NewMerkleTreeWithCostumHash d2 S hf = Some (Returns (t2, None))" and eq: "Equals mt t2"
    by auto
  from assms(4) have "segmentSize mt = S \<and> newHash mt = hf"
    by (auto simp: NewMerkleTreeWithCostumHash_def Let_def split: option.splits result.splits)
  with t2 eq show ?thesis
    by (simp add: Validate_def Equals_def)
qed

text \<open>
  Claim C2 fails on the code. The trees built from \<open>abcd\<close> and from \<open>abce\<close> with
  segment size 4 consist of one leaf each; when the digests of the two buffers differ,
  the equality of the specification does not hold between them, and \<open>Equals\<close> returns
  true.
\<close>

theorem equals_ignores_digests:
  assumes "H ''abcd'' \<noteq> H ''abce''"
  shows "NewMerkleTreeWithCostumHash ''abcd'' 4 (hashNew H) =
           Some (Returns (\<lparr>root = Node nil nil (Hasher H ''abcd''), data = ''abcd'',
                            segmentSize = 4, newHash = hashNew H\<rparr>, None)) \<and>
         NewMerkleTreeWithCostumHash ''abce'' 4 (hashNew H) =
           Some (Returns (\<lparr>root = Node nil nil (Hasher H ''abce''), data = ''abce'',
                            segmentSize = 4, newHash = hashNew H\<rparr>, None)) \<and>
         Equals \<lparr>root = Node nil nil (Hasher H ''abcd''), data = ''abcd'',
                  segmentSize = 4, newHash = hashNew H\<rparr>
                \<lparr>root = Node nil nil (Hasher H ''abce''), data = ''abce'',
                  segmentSize = 4, newHash = hashNew H\<rparr> \<and>
         \<not> lockstep_equal (Node nil nil (Hasher H ''abcd'')) (Node nil nil (Hasher H ''abce''))"
  using assms by (simp add: eval_simps hashNew_def Equals_def)

text \<open>
  Claim C2 with a hashing context whose digest is the bytes written to it.
\<close>

theorem equals_ignores_digests_witness:
  "id ''abcd'' \<noteq> id ''abce'' \<and>
   Equals \<lparr>root = Node nil nil (Hasher id ''abcd''), data = ''abcd'',
            segmentSize = 4, newHash = hashNew id\<rparr>
          \<lparr>root = Node nil nil (Hasher id ''abce''), data = ''abce'',
            segmentSize = 4, newHash = hashNew id\<rparr> \<and>
   \<not> lockstep_equal (Node nil nil (Hasher id ''abcd'')) (Node nil nil (Hasher id ''abce''))"
proof -
  have h: "id ''abcd'' \<noteq> id ''abce''" by simp
  from equals_ignores_digests [OF h] h show ?thesis by blast
qed

text \<open>
  Claim C3 fails on the code. \<open>Validate\<close> returns true on the tree built from \<open>abcd\<close>
  with segment size 4, and it still returns true after the stored buffer is replaced by
  \<open>abce\<close>, for any digest function \<open>H\<close>.
\<close>

theorem validate_accepts_replaced_data:
  "NewMerkleTreeWithCostumHash ''abcd'' 4 (hashNew H) =
     Some (Returns (\<lparr>root = Node nil nil (Hasher H ''abcd''), data = ''abcd'',
                      segmentSize = 4, newHash = hashNew H\<rparr>, None)) \<and>
   Validate \<lparr>root = Node nil nil (Hasher H ''abcd''), data = ''abcd'',
              segmentSize = 4, newHash = hashNew H\<rparr> = Some (Returns (True, None)) \<and>
   Validate (\<lparr>root = Node nil nil (Hasher H ''abcd''), data = ''abcd'',
               segmentSize = 4, newHash = hashNew H\<rparr>\<lparr>data := ''abce''\<rparr>) =
     Some (Returns (True, None))"
  by (simp add: eval_simps hashNew_def Validate_def Equals_def)

end
